theory Spec2Isabelle
  imports Complex_Main
begin

section \<open>The sequence ADT of Sequence.cpp\<close>

text \<open>
  The class \<open>sequence\<close> keeps its items in a dynamic array \<open>data\<close> of \<open>capacity\<close> cells,
  of which the first \<open>used\<close> hold the items, and a cursor \<open>current_index\<close>
  (\<open>current_index = used\<close> stands for "no current item").

  The header Sequence.h is not part of the sources. Its two type declarations are taken
  as follows: \<open>value_type\<close> is the type parameter \<open>'a\<close>; \<open>size_type\<close> is an unsigned
  integer type, modelled by \<open>nat\<close>. No computation of the class wraps around as long as
  \<open>current_index \<le> used \<le> capacity\<close> holds and the capacity is one that can be allocated:
  the only decrements, \<open>used - 1\<close> and \<open>--used\<close> of \<open>remove_current\<close> and \<open>--index\<close> of the
  shifting loops, act on values that are positive there.

  A cell of the array is a \<open>'a option\<close>: \<open>new value_type[n]\<close> gives \<open>n\<close> cells without
  a value (\<open>None\<close>), and an assignment between cells copies whatever the cell holds.

  An access \<open>data[i]\<close> with \<open>i\<close> not below the size of the array has no defined behaviour
  in C++. The model makes it a result of its own, \<open>OutOfBounds i n\<close> (the index and the
  size of the array accessed), as it does for a failed \<open>assert\<close>, which aborts the
  program (\<open>AssertionFailed\<close>; the assertions are taken as compiled in).

  The compiled code has no bound check: a call that accesses the cell after the last one
  of the array goes on and returns. The member functions that access the array are
  therefore embedded twice, statement by statement the same. The first embedding
  (\<open>insert_seq\<close>, \<open>attach\<close>, \<open>resize\<close>, ...) stops at an access outside the array and
  reports it. The second (\<open>insert_unchecked\<close>, \<open>attach_unchecked\<close>, \<open>resize_unchecked\<close>,
  ...) goes on as the compiled code does: a write outside the array lands in memory that
  is no part of the sequence and leaves the array as it is, a read outside the array gives
  a cell without a value. Where a function of the first embedding returns a state, the
  one of the second returns the same state (the lemmas named \<open>_refines\<close>).
\<close>

datatype error = AssertionFailed | OutOfBounds nat nat

record 'a sequence =
  data :: "'a option list"
  used :: nat
  current_index :: nat
  capacity :: nat

subsection \<open>Array accesses\<close>

text \<open>\<open>dst[j] = src[i]\<close>\<close>

definition copy_cell :: "'a option list \<Rightarrow> nat \<Rightarrow> 'a option list \<Rightarrow> nat \<Rightarrow> error + 'a option list" where
  "copy_cell src i dst j =
     (if \<not> i < length src then Inl (OutOfBounds i (length src))
      else if \<not> j < length dst then Inl (OutOfBounds j (length dst))
      else Inr (dst[j := src ! i]))"

text \<open>\<open>dst[j] = entry\<close>\<close>

definition store_cell :: "'a option list \<Rightarrow> nat \<Rightarrow> 'a \<Rightarrow> error + 'a option list" where
  "store_cell dst j entry =
     (if \<not> j < length dst then Inl (OutOfBounds j (length dst))
      else Inr (dst[j := Some entry]))"

text \<open>
  The copying loop of the copy constructor, of \<open>resize\<close> and of \<open>operator=\<close>:
  \<^verbatim>\<open>for (size_type index = 0; index < used; ++index) dst[index] = src[index];\<close>
  with \<open>n\<close> the bound of the loop and \<open>index\<close> its variable.
\<close>

function copy_items :: "nat \<Rightarrow> nat \<Rightarrow> 'a option list \<Rightarrow> 'a option list \<Rightarrow> error + 'a option list" where
  "copy_items n index src dst =
     (if index < n then
        (case copy_cell src index dst index of
           Inl e \<Rightarrow> Inl e
         | Inr dst' \<Rightarrow> copy_items n (index + 1) src dst')
      else Inr dst)"
  by pat_completeness auto
termination
  by (relation "measure (\<lambda>(n, index, src, dst). n - index)") auto

declare copy_items.simps [simp del]

text \<open>
  The shifting loop of \<open>insert\<close> and \<open>attach\<close>:
  \<^verbatim>\<open>for (size_type index = used + 1; index > current_index; --index) data[index] = data[index-1];\<close>
  with \<open>cur\<close> the value of \<open>current_index\<close> and \<open>index\<close> the loop variable.
\<close>

function shift_right :: "nat \<Rightarrow> nat \<Rightarrow> 'a option list \<Rightarrow> error + 'a option list" where
  "shift_right cur index d =
     (if index > cur then
        (case copy_cell d (index - 1) d index of
           Inl e \<Rightarrow> Inl e
         | Inr d' \<Rightarrow> shift_right cur (index - 1) d')
      else Inr d)"
  by pat_completeness auto
termination
  by (relation "measure (\<lambda>(cur, index, d). index)") auto

declare shift_right.simps [simp del]

text \<open>
  The shifting loop of \<open>remove_current\<close>:
  \<^verbatim>\<open>for (size_type index = current_index; index < used-1; ++index) data[index] = data[index + 1];\<close>
  with \<open>bound\<close> the value of \<open>used-1\<close>.
\<close>

function shift_left :: "nat \<Rightarrow> nat \<Rightarrow> 'a option list \<Rightarrow> error + 'a option list" where
  "shift_left bound index d =
     (if index < bound then
        (case copy_cell d (index + 1) d index of
           Inl e \<Rightarrow> Inl e
         | Inr d' \<Rightarrow> shift_left bound (index + 1) d')
      else Inr d)"
  by pat_completeness auto
termination
  by (relation "measure (\<lambda>(bound, index, d). bound - index)") auto

declare shift_left.simps [simp del]

subsection \<open>Constructors\<close>

definition sequence_init :: "nat \<Rightarrow> 'a sequence" where
  "sequence_init initial_capacity =
     (let cap = (if initial_capacity < 1 then 1 else initial_capacity)
      in \<lparr>data = replicate cap None, used = 0, current_index = 0, capacity = cap\<rparr>)"

definition sequence_copy :: "'a sequence \<Rightarrow> error + 'a sequence" where
  "sequence_copy source =
     (case copy_items (used source) 0 (data source) (replicate (capacity source) None) of
        Inl e \<Rightarrow> Inl e
      | Inr d \<Rightarrow> Inr \<lparr>data = d, used = used source, current_index = current_index source,
                     capacity = capacity source\<rparr>)"

subsection \<open>Constant member functions\<close>

definition size_seq :: "'a sequence \<Rightarrow> nat" where
  "size_seq s = used s"

definition is_item :: "'a sequence \<Rightarrow> bool" where
  "is_item s = (current_index s \<noteq> used s)"

definition current :: "'a sequence \<Rightarrow> error + 'a option" where
  "current s =
     (if \<not> is_item s then Inl AssertionFailed
      else if \<not> current_index s < length (data s)
        then Inl (OutOfBounds (current_index s) (length (data s)))
      else Inr (data s ! current_index s))"

subsection \<open>Modification member functions\<close>

text \<open>
  \<open>resize\<close> sets \<open>capacity\<close>, allocates the new array, copies the items and adopts
  the new array.
\<close>

definition resize :: "nat \<Rightarrow> 'a sequence \<Rightarrow> error + 'a sequence" where
  "resize new_capacity s =
     (let new_capacity' = (if new_capacity < 1 then 1 else new_capacity);
          cap = (if new_capacity' < used s then used s else new_capacity')
      in case copy_items (used s) 0 (data s) (replicate cap None) of
           Inl e \<Rightarrow> Inl e
         | Inr temp_data \<Rightarrow> Inr (s\<lparr>capacity := cap, data := temp_data\<rparr>))"

definition start :: "'a sequence \<Rightarrow> 'a sequence" where
  "start s = s\<lparr>current_index := 0\<rparr>"

definition advance :: "'a sequence \<Rightarrow> error + 'a sequence" where
  "advance s =
     (if \<not> is_item s then Inl AssertionFailed
      else Inr (s\<lparr>current_index := current_index s + 1\<rparr>))"

text \<open>
  The first statement of \<open>insert\<close> and of \<open>attach\<close>:
  \<^verbatim>\<open>if(used == capacity){resize(size_type (1.25 * capacity)+1);}\<close>
  The product is computed in double precision and truncated; for a capacity below
  \<open>2 ^ 50\<close> it is exact, and its truncation is \<open>5 * capacity div 4\<close>.
\<close>

definition grow_if_full :: "'a sequence \<Rightarrow> error + 'a sequence" where
  "grow_if_full s =
     (if used s = capacity s then resize (5 * capacity s div 4 + 1) s else Inr s)"

text \<open>
  The tail shared by the two branches of \<open>insert\<close> and by the second branch of \<open>attach\<close>:
  the shifting loop, \<open>data[current_index] = entry\<close> and \<open>++used\<close>.
\<close>

definition shift_and_store :: "'a \<Rightarrow> 'a sequence \<Rightarrow> error + 'a sequence" where
  "shift_and_store entry s =
     (case shift_right (current_index s) (used s + 1) (data s) of
        Inl e \<Rightarrow> Inl e
      | Inr d \<Rightarrow>
          (case store_cell d (current_index s) entry of
             Inl e \<Rightarrow> Inl e
           | Inr d' \<Rightarrow> Inr (s\<lparr>data := d', used := used s + 1\<rparr>)))"

definition insert_seq :: "'a \<Rightarrow> 'a sequence \<Rightarrow> error + 'a sequence" where
  "insert_seq entry s =
     (case grow_if_full s of
        Inl e \<Rightarrow> Inl e
      | Inr s1 \<Rightarrow>
          (if \<not> is_item s1 then shift_and_store entry (s1\<lparr>current_index := 0\<rparr>)
           else shift_and_store entry s1))"

definition attach :: "'a \<Rightarrow> 'a sequence \<Rightarrow> error + 'a sequence" where
  "attach entry s =
     (case grow_if_full s of
        Inl e \<Rightarrow> Inl e
      | Inr s1 \<Rightarrow>
          (if \<not> is_item s1 then
             (case store_cell (data s1) (current_index s1) entry of
                Inl e \<Rightarrow> Inl e
              | Inr d' \<Rightarrow> Inr (s1\<lparr>data := d', used := used s1 + 1\<rparr>))
           else shift_and_store entry (s1\<lparr>current_index := current_index s1 + 1\<rparr>)))"

definition remove_current :: "'a sequence \<Rightarrow> error + 'a sequence" where
  "remove_current s =
     (if \<not> is_item s then Inl AssertionFailed
      else
        (case shift_left (used s - 1) (current_index s) (data s) of
           Inl e \<Rightarrow> Inl e
         | Inr d \<Rightarrow> Inr (s\<lparr>data := d, used := used s - 1\<rparr>)))"

text \<open>
  \<open>operator=\<close>. The test \<open>this == &source\<close> compares addresses; \<open>same_object\<close> is its
  outcome.
\<close>

definition operator_assign :: "bool \<Rightarrow> 'a sequence \<Rightarrow> 'a sequence \<Rightarrow> error + 'a sequence" where
  "operator_assign same_object source s =
     (if same_object then Inr s
      else
        (case copy_items (used source) 0 (data source) (replicate (capacity source) None) of
           Inl e \<Rightarrow> Inl e
         | Inr temp_data \<Rightarrow>
             Inr (s\<lparr>data := temp_data, capacity := capacity source, used := used source,
                    current_index := current_index source\<rparr>)))"

subsection \<open>The member functions without bound checks\<close>

text \<open>
  The same statements as above, with the array accesses as the compiled code makes
  them. Only the assertions are left to fail.
\<close>

text \<open>The value of \<open>d[i]\<close>, read without a bound check.\<close>

definition read_unchecked :: "'a option list \<Rightarrow> nat \<Rightarrow> 'a option" where
  "read_unchecked d i = (if i < length d then d ! i else None)"

text \<open>\<open>d[i] = v\<close>, written without a bound check.\<close>

definition write_unchecked :: "'a option list \<Rightarrow> nat \<Rightarrow> 'a option \<Rightarrow> 'a option list" where
  "write_unchecked d i v = (if i < length d then d[i := v] else d)"

text \<open>The copying loop, as \<open>copy_items\<close>.\<close>

function copy_items_unchecked :: "nat \<Rightarrow> nat \<Rightarrow> 'a option list \<Rightarrow> 'a option list \<Rightarrow> 'a option list" where
  "copy_items_unchecked n index src dst =
     (if index < n then
        copy_items_unchecked n (index + 1) src (write_unchecked dst index (read_unchecked src index))
      else dst)"
  by pat_completeness auto
termination
  by (relation "measure (\<lambda>(n, index, src, dst). n - index)") auto

declare copy_items_unchecked.simps [simp del]

text \<open>The shifting loop of \<open>insert\<close> and \<open>attach\<close>, as \<open>shift_right\<close>.\<close>

function shift_right_unchecked :: "nat \<Rightarrow> nat \<Rightarrow> 'a option list \<Rightarrow> 'a option list" where
  "shift_right_unchecked cur index d =
     (if index > cur then
        shift_right_unchecked cur (index - 1) (write_unchecked d index (read_unchecked d (index - 1)))
      else d)"
  by pat_completeness auto
termination
  by (relation "measure (\<lambda>(cur, index, d). index)") auto

declare shift_right_unchecked.simps [simp del]

text \<open>The shifting loop of \<open>remove_current\<close>, as \<open>shift_left\<close>.\<close>

function shift_left_unchecked :: "nat \<Rightarrow> nat \<Rightarrow> 'a option list \<Rightarrow> 'a option list" where
  "shift_left_unchecked bound index d =
     (if index < bound then
        shift_left_unchecked bound (index + 1) (write_unchecked d index (read_unchecked d (index + 1)))
      else d)"
  by pat_completeness auto
termination
  by (relation "measure (\<lambda>(bound, index, d). bound - index)") auto

declare shift_left_unchecked.simps [simp del]

text \<open>The member functions, each as its namesake above.\<close>

definition sequence_copy_unchecked :: "'a sequence \<Rightarrow> 'a sequence" where
  "sequence_copy_unchecked source =
     \<lparr>data = copy_items_unchecked (used source) 0 (data source) (replicate (capacity source) None),
      used = used source, current_index = current_index source, capacity = capacity source\<rparr>"

definition resize_unchecked :: "nat \<Rightarrow> 'a sequence \<Rightarrow> 'a sequence" where
  "resize_unchecked new_capacity s =
     (let new_capacity' = (if new_capacity < 1 then 1 else new_capacity);
          cap = (if new_capacity' < used s then used s else new_capacity')
      in s\<lparr>capacity := cap,
            data := copy_items_unchecked (used s) 0 (data s) (replicate cap None)\<rparr>)"

definition grow_if_full_unchecked :: "'a sequence \<Rightarrow> 'a sequence" where
  "grow_if_full_unchecked s =
     (if used s = capacity s then resize_unchecked (5 * capacity s div 4 + 1) s else s)"

definition shift_and_store_unchecked :: "'a \<Rightarrow> 'a sequence \<Rightarrow> 'a sequence" where
  "shift_and_store_unchecked entry s =
     s\<lparr>data := write_unchecked (shift_right_unchecked (current_index s) (used s + 1) (data s))
                 (current_index s) (Some entry),
       used := used s + 1\<rparr>"

definition insert_unchecked :: "'a \<Rightarrow> 'a sequence \<Rightarrow> 'a sequence" where
  "insert_unchecked entry s =
     (let s1 = grow_if_full_unchecked s
      in if \<not> is_item s1 then shift_and_store_unchecked entry (s1\<lparr>current_index := 0\<rparr>)
         else shift_and_store_unchecked entry s1)"

definition attach_unchecked :: "'a \<Rightarrow> 'a sequence \<Rightarrow> 'a sequence" where
  "attach_unchecked entry s =
     (let s1 = grow_if_full_unchecked s
      in if \<not> is_item s1 then
           s1\<lparr>data := write_unchecked (data s1) (current_index s1) (Some entry),
              used := used s1 + 1\<rparr>
         else shift_and_store_unchecked entry (s1\<lparr>current_index := current_index s1 + 1\<rparr>))"

definition remove_current_unchecked :: "'a sequence \<Rightarrow> error + 'a sequence" where
  "remove_current_unchecked s =
     (if \<not> is_item s then Inl AssertionFailed
      else Inr (s\<lparr>data := shift_left_unchecked (used s - 1) (current_index s) (data s),
                   used := used s - 1\<rparr>))"

definition operator_assign_unchecked :: "bool \<Rightarrow> 'a sequence \<Rightarrow> 'a sequence \<Rightarrow> 'a sequence" where
  "operator_assign_unchecked same_object source s =
     (if same_object then s
      else s\<lparr>data := copy_items_unchecked (used source) 0 (data source)
                       (replicate (capacity source) None),
             capacity := capacity source, used := used source,
             current_index := current_index source\<rparr>)"

subsection \<open>Representation invariant, logical contents, reachable states\<close>

text \<open>
  The invariant of the class, as the header comment of Sequence.cpp states it, together
  with the bound of the cursor: the array has \<open>capacity\<close> cells, \<open>used\<close> of them hold
  the items, the capacity is at least 1 and the cursor is at most \<open>used\<close>.
\<close>

definition seq_inv :: "'a sequence \<Rightarrow> bool" where
  "seq_inv s \<longleftrightarrow>
     length (data s) = capacity s \<and> used s \<le> capacity s \<and> 1 \<le> capacity s \<and>
     current_index s \<le> used s"

text \<open>The items of the sequence: \<open>data[0]\<close> through \<open>data[used-1]\<close>.\<close>

definition items :: "'a sequence \<Rightarrow> 'a option list" where
  "items s = take (used s) (data s)"

text \<open>
  The states a sequence object can be in: those that the constructors give, and those
  that a member function returns from such a state, run as the compiled code runs it,
  without bound checks. Every call returns a state, but for \<open>advance\<close> and
  \<open>remove_current\<close> without a current item, which abort.
\<close>

inductive reachable :: "'a sequence \<Rightarrow> bool" where
  r_construct: "reachable (sequence_init initial_capacity)"
| r_copy: "reachable source \<Longrightarrow> reachable (sequence_copy_unchecked source)"
| r_resize: "reachable s \<Longrightarrow> reachable (resize_unchecked new_capacity s)"
| r_start: "reachable s \<Longrightarrow> reachable (start s)"
| r_advance: "reachable s \<Longrightarrow> advance s = Inr s' \<Longrightarrow> reachable s'"
| r_insert: "reachable s \<Longrightarrow> reachable (insert_unchecked entry s)"
| r_attach: "reachable s \<Longrightarrow> reachable (attach_unchecked entry s)"
| r_remove_current: "reachable s \<Longrightarrow> remove_current_unchecked s = Inr s' \<Longrightarrow> reachable s'"
| r_assign: "reachable s \<Longrightarrow> reachable source \<Longrightarrow> (same_object \<longrightarrow> source = s) \<Longrightarrow>
     reachable (operator_assign_unchecked same_object source s)"

text \<open>
  A traversal by a client: \<open>k\<close> times, read \<open>current()\<close> and then call \<open>advance()\<close>.
  The result is the list of the values read and the final state.
\<close>

fun traverse :: "nat \<Rightarrow> 'a sequence \<Rightarrow> error + ('a option list \<times> 'a sequence)" where
  "traverse 0 s = Inr ([], s)"
| "traverse (Suc k) s =
     (case current s of
        Inl e \<Rightarrow> Inl e
      | Inr v \<Rightarrow>
          (case advance s of
             Inl e \<Rightarrow> Inl e
           | Inr s1 \<Rightarrow>
               (case traverse k s1 of
                  Inl e \<Rightarrow> Inl e
                | Inr (vs, s2) \<Rightarrow> Inr (v # vs, s2))))"

section \<open>The loops\<close>

lemma copy_cell_ok:
  "i < length src \<Longrightarrow> j < length dst \<Longrightarrow> copy_cell src i dst j = Inr (dst[j := src ! i])"
  by (simp add: copy_cell_def)

lemma copy_cell_length:
  "copy_cell src i dst j = Inr d' \<Longrightarrow> length d' = length dst"
  by (auto simp: copy_cell_def split: if_splits)

lemma store_cell_length:
  "store_cell dst j x = Inr d' \<Longrightarrow> length d' = length dst"
  by (auto simp: store_cell_def split: if_splits)

lemma shift_right_length:
  "shift_right cur index d = Inr d' \<Longrightarrow> length d' = length d"
proof (induction cur index d rule: shift_right.induct)
  case (1 cur index d)
  show ?case
  proof (cases "cur < index")
    case True
    from "1.prems" True obtain x where
      cc: "copy_cell d (index - 1) d index = Inr x" and
      rec: "shift_right cur (index - 1) x = Inr d'"
      by (subst (asm) shift_right.simps) (auto split: sum.splits)
    from "1.IH" [OF True cc rec] copy_cell_length [OF cc] show ?thesis by simp
  next
    case False
    with "1.prems" show ?thesis
      by (subst (asm) shift_right.simps) simp
  qed
qed

lemma shift_right_ok:
  "hi < length d \<Longrightarrow>
   shift_right cur hi d =
     Inr (map (\<lambda>j. if cur < j \<and> j \<le> hi then d ! (j - 1) else d ! j) [0..<length d])"
proof (induction cur hi d rule: shift_right.induct)
  case (1 cur index d)
  show ?case
  proof (cases "cur < index")
    case True
    let ?d' = "d[index := d ! (index - 1)]"
    have cc: "copy_cell d (index - 1) d index = Inr ?d'"
      using "1.prems" by (simp add: copy_cell_def)
    have rec: "shift_right cur (index - 1) ?d' =
        Inr (map (\<lambda>j. if cur < j \<and> j \<le> index - 1 then ?d' ! (j - 1) else ?d' ! j) [0..<length ?d'])"
      using "1.IH" [OF True cc] "1.prems" by simp
    have eq: "map (\<lambda>j. if cur < j \<and> j \<le> index - 1 then ?d' ! (j - 1) else ?d' ! j) [0..<length ?d']
        = map (\<lambda>j. if cur < j \<and> j \<le> index then d ! (j - 1) else d ! j) [0..<length d]"
      using True "1.prems" by (intro nth_equalityI) (auto simp: nth_list_update)
    show ?thesis
      using True cc rec eq by (subst shift_right.simps) simp
  next
    case False
    have "map (\<lambda>j. if cur < j \<and> j \<le> index then d ! (j - 1) else d ! j) [0..<length d] = d"
      using False by (intro nth_equalityI) auto
    with False show ?thesis
      by (subst shift_right.simps) simp
  qed
qed

lemma shift_right_overflow:
  "cur < hi \<Longrightarrow> length d \<le> hi \<Longrightarrow> hi - 1 < length d \<Longrightarrow>
   shift_right cur hi d = Inl (OutOfBounds hi (length d))"
  by (subst shift_right.simps) (simp add: copy_cell_def)

lemma shift_left_length:
  "shift_left bound index d = Inr d' \<Longrightarrow> length d' = length d"
proof (induction bound index d rule: shift_left.induct)
  case (1 bound index d)
  show ?case
  proof (cases "index < bound")
    case True
    from "1.prems" True obtain x where
      cc: "copy_cell d (index + 1) d index = Inr x" and
      rec: "shift_left bound (index + 1) x = Inr d'"
      by (subst (asm) shift_left.simps) (auto split: sum.splits)
    from "1.IH" [OF True cc rec] copy_cell_length [OF cc] show ?thesis by simp
  next
    case False
    with "1.prems" show ?thesis
      by (subst (asm) shift_left.simps) simp
  qed
qed

lemma shift_left_ok:
  "bound < length d \<Longrightarrow>
   shift_left bound index d =
     Inr (map (\<lambda>j. if index \<le> j \<and> j < bound then d ! (j + 1) else d ! j) [0..<length d])"
proof (induction bound index d rule: shift_left.induct)
  case (1 bound index d)
  show ?case
  proof (cases "index < bound")
    case True
    let ?d' = "d[index := d ! (index + 1)]"
    have cc: "copy_cell d (index + 1) d index = Inr ?d'"
      using "1.prems" True by (simp add: copy_cell_def)
    have rec: "shift_left bound (index + 1) ?d' =
        Inr (map (\<lambda>j. if index + 1 \<le> j \<and> j < bound then ?d' ! (j + 1) else ?d' ! j) [0..<length ?d'])"
      using "1.IH" [OF True cc] "1.prems" by simp
    have eq: "map (\<lambda>j. if index + 1 \<le> j \<and> j < bound then ?d' ! (j + 1) else ?d' ! j) [0..<length ?d']
        = map (\<lambda>j. if index \<le> j \<and> j < bound then d ! (j + 1) else d ! j) [0..<length d]"
      using True "1.prems" by (intro nth_equalityI) (auto simp: nth_list_update)
    show ?thesis
      using True cc rec eq by (subst shift_left.simps) simp
  next
    case False
    have "map (\<lambda>j. if index \<le> j \<and> j < bound then d ! (j + 1) else d ! j) [0..<length d] = d"
      using False by (intro nth_equalityI) auto
    with False show ?thesis
      by (subst shift_left.simps) simp
  qed
qed

lemma copy_items_ok:
  "n \<le> length src \<Longrightarrow> n \<le> length dst \<Longrightarrow>
   copy_items n index src dst =
     Inr (map (\<lambda>j. if index \<le> j \<and> j < n then src ! j else dst ! j) [0..<length dst])"
proof (induction n index src dst rule: copy_items.induct)
  case (1 n index src dst)
  show ?case
  proof (cases "index < n")
    case True
    let ?d' = "dst[index := src ! index]"
    have cc: "copy_cell src index dst index = Inr ?d'"
      using "1.prems" True by (simp add: copy_cell_def)
    have rec: "copy_items n (index + 1) src ?d' =
        Inr (map (\<lambda>j. if index + 1 \<le> j \<and> j < n then src ! j else ?d' ! j) [0..<length ?d'])"
      using "1.IH" [OF True cc] "1.prems" by simp
    have eq: "map (\<lambda>j. if index + 1 \<le> j \<and> j < n then src ! j else ?d' ! j) [0..<length ?d']
        = map (\<lambda>j. if index \<le> j \<and> j < n then src ! j else dst ! j) [0..<length dst]"
      using True "1.prems" by (intro nth_equalityI) (auto simp: nth_list_update)
    show ?thesis
      using True cc rec eq by (subst copy_items.simps) simp
  next
    case False
    have "map (\<lambda>j. if index \<le> j \<and> j < n then src ! j else dst ! j) [0..<length dst] = dst"
      using False by (intro nth_equalityI) auto
    with False show ?thesis
      by (subst copy_items.simps) simp
  qed
qed

lemma copy_items_fresh:
  assumes "n \<le> length src" "n \<le> cap"
  shows "copy_items n 0 src (replicate cap None) = Inr (take n src @ replicate (cap - n) None)"
proof -
  have "map (\<lambda>j. if 0 \<le> j \<and> j < n then src ! j else replicate cap None ! j) [0..<length (replicate cap None)]
      = take n src @ replicate (cap - n) None"
    using assms by (intro nth_equalityI) (auto simp: nth_append)
  with copy_items_ok [of n src "replicate cap None" 0] assms show ?thesis by simp
qed

lemma copy_items_length:
  "copy_items n index src dst = Inr d' \<Longrightarrow> length d' = length dst"
proof (induction n index src dst rule: copy_items.induct)
  case (1 n index src dst)
  show ?case
  proof (cases "index < n")
    case True
    from "1.prems" True obtain x where
      cc: "copy_cell src index dst index = Inr x" and
      rec: "copy_items n (index + 1) src x = Inr d'"
      by (subst (asm) copy_items.simps) (auto split: sum.splits)
    from "1.IH" [OF True cc rec] copy_cell_length [OF cc] show ?thesis by simp
  next
    case False
    with "1.prems" show ?thesis
      by (subst (asm) copy_items.simps) simp
  qed
qed

section \<open>The member functions\<close>

lemma seq_inv_init: "seq_inv (sequence_init n)"
  by (simp add: seq_inv_def sequence_init_def Let_def)

lemma resize_ok:
  assumes "seq_inv s"
  shows "resize n s =
     Inr (s\<lparr>capacity := max (max n 1) (used s),
            data := take (used s) (data s) @ replicate (max (max n 1) (used s) - used s) None\<rparr>)"
proof -
  have c: "(if (if n < 1 then 1 else n) < used s then used s else (if n < 1 then 1 else n))
      = max (max n 1) (used s)"
    by (simp add: max_def)
  have "used s \<le> length (data s)" using assms by (simp add: seq_inv_def)
  then have "copy_items (used s) 0 (data s) (replicate (max (max n 1) (used s)) None)
      = Inr (take (used s) (data s) @ replicate (max (max n 1) (used s) - used s) None)"
    by (rule copy_items_fresh) simp
  then show ?thesis
    unfolding resize_def Let_def c by simp
qed

lemma seq_inv_resize:
  assumes "seq_inv s" "resize n s = Inr s'"
  shows "seq_inv s'"
  using assms(2) assms(1) unfolding resize_ok [OF assms(1)]
  by (auto simp: seq_inv_def)

lemma grow_if_full_ok:
  assumes "seq_inv s"
  shows "grow_if_full s =
     Inr (if used s = capacity s
          then s\<lparr>capacity := 5 * capacity s div 4 + 1,
                 data := take (used s) (data s) @ replicate (5 * capacity s div 4 + 1 - used s) None\<rparr>
          else s)"
proof (cases "used s = capacity s")
  case True
  have "capacity s \<le> 5 * capacity s div 4" by arith
  then have "max (max (5 * capacity s div 4 + 1) 1) (used s) = 5 * capacity s div 4 + 1"
    using True by (simp add: max_def)
  with True show ?thesis
    by (simp add: grow_if_full_def resize_ok [OF assms])
next
  case False
  then show ?thesis by (simp add: grow_if_full_def)
qed

lemma grow_if_full_props:
  assumes "seq_inv s" "grow_if_full s = Inr s1"
  shows "seq_inv s1" and "used s1 < capacity s1" and "used s1 = used s"
    and "current_index s1 = current_index s" and "items s1 = items s"
    and "capacity s1 = (if used s = capacity s then 5 * capacity s div 4 + 1 else capacity s)"
  using assms(2) assms(1) unfolding grow_if_full_ok [OF assms(1)]
  by (auto simp: seq_inv_def items_def split: if_splits)

lemma shift_and_store_props:
  assumes "shift_and_store x s = Inr s'"
  shows "length (data s') = length (data s)" and "used s' = used s + 1"
    and "current_index s' = current_index s" and "capacity s' = capacity s"
proof -
  from assms obtain d d' where
    sh: "shift_right (current_index s) (used s + 1) (data s) = Inr d" and
    st: "store_cell d (current_index s) x = Inr d'" and
    s': "s' = s\<lparr>data := d', used := used s + 1\<rparr>"
    unfolding shift_and_store_def by (auto split: sum.splits)
  from shift_right_length [OF sh] store_cell_length [OF st] s'
  show "length (data s') = length (data s)" by simp
  from s' show "used s' = used s + 1" and "current_index s' = current_index s"
    and "capacity s' = capacity s" by simp_all
qed

lemma shift_and_store_ok:
  assumes room: "used s + 1 < length (data s)" and cur: "current_index s \<le> used s"
  shows "\<exists>s'. shift_and_store x s = Inr s' \<and>
           items s' = take (current_index s) (items s) @ Some x # drop (current_index s) (items s) \<and>
           data s' ! current_index s = Some x"
proof -
  let ?c = "current_index s" and ?u = "used s" and ?d = "data s"
  let ?sh = "map (\<lambda>j. if ?c < j \<and> j \<le> ?u + 1 then ?d ! (j - 1) else ?d ! j) [0..<length ?d]"
  have sh: "shift_right ?c (?u + 1) ?d = Inr ?sh"
    using room by (rule shift_right_ok)
  have st: "store_cell ?sh ?c x = Inr (?sh[?c := Some x])"
    using room cur by (simp add: store_cell_def)
  have res: "shift_and_store x s = Inr (s\<lparr>data := ?sh[?c := Some x], used := ?u + 1\<rparr>)"
    by (simp only: shift_and_store_def sh st sum.case)
  have "take (?u + 1) (?sh[?c := Some x]) = take ?c (take ?u ?d) @ Some x # drop ?c (take ?u ?d)"
    using room cur
    by (intro nth_equalityI)
      (auto simp: nth_append nth_list_update nth_Cons' intro!: arg_cong [where f = "nth (data s)"])
  moreover have "(?sh[?c := Some x]) ! ?c = Some x"
    using room cur by simp
  ultimately show ?thesis
    using res by (simp add: items_def)
qed

lemma shift_and_store_overflow:
  assumes "used s + 1 = length (data s)" and "current_index s \<le> used s"
  shows "shift_and_store x s = Inl (OutOfBounds (used s + 1) (length (data s)))"
proof -
  have "shift_right (current_index s) (used s + 1) (data s)
      = Inl (OutOfBounds (used s + 1) (length (data s)))"
    using assms by (intro shift_right_overflow) auto
  then show ?thesis unfolding shift_and_store_def by simp
qed

lemma is_item_grow:
  assumes "seq_inv s" "grow_if_full s = Inr s1"
  shows "is_item s1 = is_item s"
  using grow_if_full_props(3,4) [OF assms] by (simp add: is_item_def)

lemma insert_seq_unfold:
  assumes "grow_if_full s = Inr s1"
  shows "insert_seq x s =
     shift_and_store x (if is_item s1 then s1 else s1\<lparr>current_index := 0\<rparr>)"
  using assms by (simp add: insert_seq_def)

lemma insert_seq_ok:
  assumes inv: "seq_inv s"
    and room: "used s + 2 \<le> (if used s = capacity s then 5 * capacity s div 4 + 1 else capacity s)"
  shows "\<exists>s'. insert_seq x s = Inr s' \<and> seq_inv s' \<and> used s' = used s + 1 \<and>
           current_index s' = (if is_item s then current_index s else 0) \<and>
           capacity s' = (if used s = capacity s then 5 * capacity s div 4 + 1 else capacity s) \<and>
           items s' = take (if is_item s then current_index s else 0) (items s) @ Some x #
                      drop (if is_item s then current_index s else 0) (items s) \<and>
           current s' = Inr (Some x)"
proof -
  obtain s1 where g: "grow_if_full s = Inr s1"
    using grow_if_full_ok [OF inv] by simp
  note p = grow_if_full_props [OF inv g]
  define s2 where "s2 = (if is_item s1 then s1 else s1\<lparr>current_index := 0\<rparr>)"
  have it: "is_item s1 = is_item s" by (rule is_item_grow [OF inv g])
  have c2: "current_index s2 = (if is_item s then current_index s else 0)"
    using p(4) it by (simp add: s2_def)
  have u2: "used s2 = used s" and i2: "items s2 = items s" and cap2: "capacity s2 = capacity s1"
    and d2: "length (data s2) = capacity s1"
    using p(1,3,5) by (simp_all add: s2_def items_def seq_inv_def)
  have cur2: "current_index s2 \<le> used s2"
    using inv c2 u2 by (simp add: seq_inv_def)
  have room2: "used s2 + 1 < length (data s2)"
    using room p(6) u2 d2 by simp
  from shift_and_store_ok [OF room2 cur2, of x] obtain s' where
    r: "shift_and_store x s2 = Inr s'" and
    i': "items s' = take (current_index s2) (items s2) @ Some x # drop (current_index s2) (items s2)" and
    n': "data s' ! current_index s2 = Some x"
    by blast
  note q = shift_and_store_props [OF r]
  have "insert_seq x s = Inr s'"
    using insert_seq_unfold [OF g, of x] r by (simp add: s2_def)
  moreover have "seq_inv s'"
    using q cur2 room2 d2 cap2 by (simp add: seq_inv_def)
  moreover have "current s' = Inr (Some x)"
    using q cur2 room2 n' by (simp add: current_def is_item_def)
  ultimately show ?thesis
    using q c2 u2 i2 cap2 p(6) i' by simp
qed

lemma insert_seq_overflow:
  assumes inv: "seq_inv s"
    and tight: "used s + 1 = (if used s = capacity s then 5 * capacity s div 4 + 1 else capacity s)"
  shows "insert_seq x s = Inl (OutOfBounds (used s + 1) (used s + 1))"
proof -
  obtain s1 where g: "grow_if_full s = Inr s1"
    using grow_if_full_ok [OF inv] by simp
  note p = grow_if_full_props [OF inv g]
  define s2 where "s2 = (if is_item s1 then s1 else s1\<lparr>current_index := 0\<rparr>)"
  have it: "is_item s1 = is_item s" by (rule is_item_grow [OF inv g])
  have u2: "used s2 = used s" and d2: "length (data s2) = capacity s1"
    using p(1,3) by (simp_all add: s2_def seq_inv_def)
  have cur2: "current_index s2 \<le> used s2"
    using inv p(3,4) by (simp add: seq_inv_def s2_def)
  have "used s2 + 1 = length (data s2)"
    using tight p(6) u2 d2 by simp
  from shift_and_store_overflow [OF this cur2, of x] this u2
  have "shift_and_store x s2 = Inl (OutOfBounds (used s + 1) (used s + 1))" by simp
  then show ?thesis
    using insert_seq_unfold [OF g, of x] by (simp add: s2_def)
qed

lemma attach_unfold:
  assumes "grow_if_full s = Inr s1"
  shows "attach x s =
     (if \<not> is_item s1 then
        (case store_cell (data s1) (current_index s1) x of
           Inl e \<Rightarrow> Inl e
         | Inr d' \<Rightarrow> Inr (s1\<lparr>data := d', used := used s1 + 1\<rparr>))
      else shift_and_store x (s1\<lparr>current_index := current_index s1 + 1\<rparr>))"
  using assms by (simp add: attach_def)

lemma attach_end_ok:
  assumes inv: "seq_inv s" and none: "\<not> is_item s"
  shows "\<exists>s'. attach x s = Inr s' \<and> seq_inv s' \<and> used s' = used s + 1 \<and>
           current_index s' = used s \<and>
           capacity s' = (if used s = capacity s then 5 * capacity s div 4 + 1 else capacity s) \<and>
           items s' = items s @ [Some x] \<and>
           current s' = Inr (Some x)"
proof -
  obtain s1 where g: "grow_if_full s = Inr s1"
    using grow_if_full_ok [OF inv] by simp
  note p = grow_if_full_props [OF inv g]
  have it: "\<not> is_item s1" using is_item_grow [OF inv g] none by simp
  have c1: "current_index s1 = used s" using none p(4) by (simp add: is_item_def)
  have len: "length (data s1) = capacity s1" using p(1) by (simp add: seq_inv_def)
  have st: "store_cell (data s1) (current_index s1) x = Inr ((data s1)[used s := Some x])"
    using c1 p(2,3) len by (simp add: store_cell_def)
  define s' where "s' = s1\<lparr>data := (data s1)[used s := Some x], used := used s1 + 1\<rparr>"
  have r: "attach x s = Inr s'"
    unfolding attach_unfold [OF g] s'_def using it st by simp
  have "take (used s + 1) ((data s1)[used s := Some x]) = take (used s) (data s1) @ [Some x]"
    using p(2,3) len by (simp add: take_Suc_conv_app_nth)
  then have "items s' = items s @ [Some x]"
    using p(3,5) by (simp add: items_def s'_def)
  moreover have "seq_inv s'"
    using p(1,2,3) c1 by (simp add: seq_inv_def s'_def)
  moreover have "current s' = Inr (Some x)"
    using p(2,3) c1 len by (simp add: current_def is_item_def s'_def)
  ultimately show ?thesis
    using r p(3,6) c1 by (simp add: s'_def)
qed

lemma attach_after_ok:
  assumes inv: "seq_inv s" and item: "is_item s"
    and room: "used s + 2 \<le> (if used s = capacity s then 5 * capacity s div 4 + 1 else capacity s)"
  shows "\<exists>s'. attach x s = Inr s' \<and> seq_inv s' \<and> used s' = used s + 1 \<and>
           current_index s' = current_index s + 1 \<and>
           capacity s' = (if used s = capacity s then 5 * capacity s div 4 + 1 else capacity s) \<and>
           items s' = take (current_index s + 1) (items s) @ Some x #
                      drop (current_index s + 1) (items s) \<and>
           current s' = Inr (Some x)"
proof -
  obtain s1 where g: "grow_if_full s = Inr s1"
    using grow_if_full_ok [OF inv] by simp
  note p = grow_if_full_props [OF inv g]
  define s2 where "s2 = s1\<lparr>current_index := current_index s1 + 1\<rparr>"
  have it: "is_item s1" using is_item_grow [OF inv g] item by simp
  have c2: "current_index s2 = current_index s + 1"
    using p(4) by (simp add: s2_def)
  have u2: "used s2 = used s" and i2: "items s2 = items s" and cap2: "capacity s2 = capacity s1"
    and d2: "length (data s2) = capacity s1"
    using p(1,3,5) by (simp_all add: s2_def items_def seq_inv_def)
  have cur2: "current_index s2 \<le> used s2"
    using inv item c2 u2 by (simp add: seq_inv_def is_item_def)
  have room2: "used s2 + 1 < length (data s2)"
    using room p(6) u2 d2 by simp
  from shift_and_store_ok [OF room2 cur2, of x] obtain s' where
    r: "shift_and_store x s2 = Inr s'" and
    i': "items s' = take (current_index s2) (items s2) @ Some x # drop (current_index s2) (items s2)" and
    n': "data s' ! current_index s2 = Some x"
    by blast
  note q = shift_and_store_props [OF r]
  have "attach x s = Inr s'"
    unfolding attach_unfold [OF g] using it r by (simp add: s2_def)
  moreover have "seq_inv s'"
    using q cur2 room2 d2 cap2 by (simp add: seq_inv_def)
  moreover have "current s' = Inr (Some x)"
    using q cur2 room2 n' by (simp add: current_def is_item_def)
  ultimately show ?thesis
    using q c2 u2 i2 cap2 p(6) i' by simp
qed

lemma attach_overflow:
  assumes inv: "seq_inv s" and item: "is_item s"
    and tight: "used s + 1 = (if used s = capacity s then 5 * capacity s div 4 + 1 else capacity s)"
  shows "attach x s = Inl (OutOfBounds (used s + 1) (used s + 1))"
proof -
  obtain s1 where g: "grow_if_full s = Inr s1"
    using grow_if_full_ok [OF inv] by simp
  note p = grow_if_full_props [OF inv g]
  define s2 where "s2 = s1\<lparr>current_index := current_index s1 + 1\<rparr>"
  have it: "is_item s1" using is_item_grow [OF inv g] item by simp
  have u2: "used s2 = used s" and d2: "length (data s2) = capacity s1"
    using p(1,3) by (simp_all add: s2_def seq_inv_def)
  have cur2: "current_index s2 \<le> used s2"
    using inv item p(3,4) by (simp add: seq_inv_def s2_def is_item_def)
  have "used s2 + 1 = length (data s2)"
    using tight p(6) u2 d2 by simp
  from shift_and_store_overflow [OF this cur2, of x] this u2
  have "shift_and_store x s2 = Inl (OutOfBounds (used s + 1) (used s + 1))" by simp
  then show ?thesis
    unfolding attach_unfold [OF g] using it by (simp add: s2_def)
qed

lemma remove_current_ok:
  assumes inv: "seq_inv s" and item: "is_item s"
  shows "\<exists>s'. remove_current s = Inr s' \<and> seq_inv s' \<and> used s' = used s - 1 \<and>
           current_index s' = current_index s \<and> capacity s' = capacity s \<and>
           items s' = take (current_index s) (items s) @ drop (current_index s + 1) (items s)"
proof -
  let ?c = "current_index s" and ?u = "used s" and ?d = "data s"
  let ?sh = "map (\<lambda>j. if ?c \<le> j \<and> j < ?u - 1 then ?d ! (j + 1) else ?d ! j) [0..<length ?d]"
  have lt: "?c < ?u" and len: "length ?d = capacity s" and ul: "?u \<le> length ?d"
    using inv item by (simp_all add: seq_inv_def is_item_def)
  have sh: "shift_left (?u - 1) ?c ?d = Inr ?sh"
    using lt ul by (intro shift_left_ok) simp
  have r: "remove_current s = Inr (s\<lparr>data := ?sh, used := ?u - 1\<rparr>)"
    using item by (simp only: remove_current_def sh sum.case) simp
  have "take (?u - 1) ?sh = take ?c (take ?u ?d) @ drop (?c + 1) (take ?u ?d)"
  proof (rule nth_equalityI)
    show "length (take (?u - 1) ?sh) = length (take ?c (take ?u ?d) @ drop (?c + 1) (take ?u ?d))"
      using lt ul by auto
  next
    fix i
    assume "i < length (take (?u - 1) ?sh)"
    then have i: "i < ?u - 1" by simp
    then have "take (?u - 1) ?sh ! i = (if ?c \<le> i then ?d ! (i + 1) else ?d ! i)"
      using ul by simp
    moreover have "(take ?c (take ?u ?d) @ drop (?c + 1) (take ?u ?d)) ! i
        = (if ?c \<le> i then ?d ! (i + 1) else ?d ! i)"
      using i lt ul by (auto simp: nth_append)
    ultimately show "take (?u - 1) ?sh ! i = (take ?c (take ?u ?d) @ drop (?c + 1) (take ?u ?d)) ! i"
      by simp
  qed
  moreover have "seq_inv (s\<lparr>data := ?sh, used := ?u - 1\<rparr>)"
    using inv lt by (auto simp: seq_inv_def)
  ultimately show ?thesis
    using r by (simp add: items_def)
qed

lemma floor_growth: "nat \<lfloor>1.25 * real c\<rfloor> = 5 * c div 4"
proof -
  have "1.25 * real c = real (5 * c) / real 4" by simp
  then have "\<lfloor>1.25 * real c\<rfloor> = \<lfloor>real (5 * c) / real 4\<rfloor>" by simp
  also have "\<dots> = int (5 * c div 4)" by (rule floor_divide_of_nat_eq)
  finally show ?thesis by simp
qed

lemma seq_inv_copy_items:
  assumes "seq_inv source"
  shows "copy_items (used source) 0 (data source) (replicate (capacity source) None)
     = Inr (take (used source) (data source) @ replicate (capacity source - used source) None)"
  using assms by (intro copy_items_fresh) (simp_all add: seq_inv_def)

lemma seq_inv_sequence_copy:
  assumes "seq_inv source" "sequence_copy source = Inr s"
  shows "seq_inv s"
  using assms(2) assms(1) unfolding sequence_copy_def seq_inv_copy_items [OF assms(1)]
  by (auto simp: seq_inv_def)

lemma seq_inv_operator_assign:
  assumes "seq_inv s" "seq_inv source" "operator_assign same_object source s = Inr s'"
  shows "seq_inv s'"
  using assms(3) assms(1,2) unfolding operator_assign_def seq_inv_copy_items [OF assms(2)]
  by (auto simp: seq_inv_def split: if_splits)

lemma seq_inv_start: "seq_inv s \<Longrightarrow> seq_inv (start s)"
  by (simp add: seq_inv_def start_def)

lemma seq_inv_advance: "seq_inv s \<Longrightarrow> advance s = Inr s' \<Longrightarrow> seq_inv s'"
  by (auto simp: seq_inv_def advance_def is_item_def split: if_splits)

lemma seq_inv_remove_current:
  assumes inv: "seq_inv s" and r: "remove_current s = Inr s'"
  shows "seq_inv s'"
proof -
  have "is_item s" using r by (auto simp: remove_current_def split: if_splits)
  from remove_current_ok [OF inv this] r show ?thesis by auto
qed

subsection \<open>The two embeddings\<close>

lemma copy_items_refines:
  "copy_items n index src dst = Inr d' \<Longrightarrow> copy_items_unchecked n index src dst = d'"
proof (induction n index src dst rule: copy_items.induct)
  case (1 n index src dst)
  show ?case
  proof (cases "index < n")
    case True
    from "1.prems" True obtain x where
      cc: "copy_cell src index dst index = Inr x" and
      rec: "copy_items n (index + 1) src x = Inr d'"
      by (subst (asm) copy_items.simps) (auto split: sum.splits)
    from cc have "write_unchecked dst index (read_unchecked src index) = x"
      by (auto simp: copy_cell_def write_unchecked_def read_unchecked_def split: if_splits)
    with "1.IH" [OF True cc rec] True show ?thesis
      by (subst copy_items_unchecked.simps) simp
  next
    case False
    with "1.prems" show ?thesis
      by (subst (asm) copy_items.simps, subst copy_items_unchecked.simps) simp
  qed
qed

lemma shift_right_refines:
  "shift_right cur index d = Inr d' \<Longrightarrow> shift_right_unchecked cur index d = d'"
proof (induction cur index d rule: shift_right.induct)
  case (1 cur index d)
  show ?case
  proof (cases "cur < index")
    case True
    from "1.prems" True obtain x where
      cc: "copy_cell d (index - 1) d index = Inr x" and
      rec: "shift_right cur (index - 1) x = Inr d'"
      by (subst (asm) shift_right.simps) (auto split: sum.splits)
    from cc have "write_unchecked d index (read_unchecked d (index - 1)) = x"
      by (auto simp: copy_cell_def write_unchecked_def read_unchecked_def split: if_splits)
    with "1.IH" [OF True cc rec] True show ?thesis
      by (subst shift_right_unchecked.simps) simp
  next
    case False
    with "1.prems" show ?thesis
      by (subst (asm) shift_right.simps, subst shift_right_unchecked.simps) simp
  qed
qed

lemma shift_left_refines:
  "shift_left bound index d = Inr d' \<Longrightarrow> shift_left_unchecked bound index d = d'"
proof (induction bound index d rule: shift_left.induct)
  case (1 bound index d)
  show ?case
  proof (cases "index < bound")
    case True
    from "1.prems" True obtain x where
      cc: "copy_cell d (index + 1) d index = Inr x" and
      rec: "shift_left bound (index + 1) x = Inr d'"
      by (subst (asm) shift_left.simps) (auto split: sum.splits)
    from cc have "write_unchecked d index (read_unchecked d (index + 1)) = x"
      by (auto simp: copy_cell_def write_unchecked_def read_unchecked_def split: if_splits)
    with "1.IH" [OF True cc rec] True show ?thesis
      by (subst shift_left_unchecked.simps) simp
  next
    case False
    with "1.prems" show ?thesis
      by (subst (asm) shift_left.simps, subst shift_left_unchecked.simps) simp
  qed
qed

lemma shift_right_unchecked_ok:
  "hi \<le> length d \<Longrightarrow>
   shift_right_unchecked cur hi d =
     map (\<lambda>j. if cur < j \<and> j \<le> hi then d ! (j - 1) else d ! j) [0..<length d]"
proof (induction cur hi d rule: shift_right_unchecked.induct)
  case (1 cur index d)
  show ?case
  proof (cases "cur < index")
    case True
    define d' where "d' = write_unchecked d index (read_unchecked d (index - 1))"
    have len: "length d' = length d"
      by (simp add: d'_def write_unchecked_def)
    have nth: "d' ! j = (if j = index then d ! (index - 1) else d ! j)" if "j < length d" for j
      using that "1.prems" True
      by (auto simp: d'_def write_unchecked_def read_unchecked_def nth_list_update)
    have "index - 1 \<le> length d'"
      using "1.prems" len by simp
    from "1.IH" [OF True this [unfolded d'_def]]
    have rec: "shift_right_unchecked cur (index - 1) d' =
        map (\<lambda>j. if cur < j \<and> j \<le> index - 1 then d' ! (j - 1) else d' ! j) [0..<length d']"
      by (simp only: d'_def)
    have eq: "map (\<lambda>j. if cur < j \<and> j \<le> index - 1 then d' ! (j - 1) else d' ! j) [0..<length d']
        = map (\<lambda>j. if cur < j \<and> j \<le> index then d ! (j - 1) else d ! j) [0..<length d]"
      using True "1.prems" by (intro nth_equalityI) (auto simp: len nth)
    have "shift_right_unchecked cur index d = shift_right_unchecked cur (index - 1) d'"
      using True by (subst shift_right_unchecked.simps) (simp add: d'_def)
    then show ?thesis
      by (simp only: rec eq)
  next
    case False
    have "map (\<lambda>j. if cur < j \<and> j \<le> index then d ! (j - 1) else d ! j) [0..<length d] = d"
      using False by (intro nth_equalityI) auto
    with False show ?thesis
      by (subst shift_right_unchecked.simps) simp
  qed
qed

lemma resize_refines:
  "resize n s = Inr s' \<Longrightarrow> resize_unchecked n s = s'"
  by (auto simp: resize_def resize_unchecked_def Let_def split: sum.splits
      dest: copy_items_refines)

lemma grow_if_full_refines:
  "grow_if_full s = Inr s1 \<Longrightarrow> grow_if_full_unchecked s = s1"
  by (auto simp: grow_if_full_def grow_if_full_unchecked_def split: if_splits
      dest: resize_refines)

lemma sequence_copy_refines:
  "sequence_copy source = Inr s \<Longrightarrow> sequence_copy_unchecked source = s"
  by (auto simp: sequence_copy_def sequence_copy_unchecked_def split: sum.splits
      dest: copy_items_refines)

lemma operator_assign_refines:
  "operator_assign same_object source s = Inr s' \<Longrightarrow>
   operator_assign_unchecked same_object source s = s'"
  by (auto simp: operator_assign_def operator_assign_unchecked_def split: sum.splits if_splits
      dest: copy_items_refines)

lemma remove_current_refines:
  "remove_current s = Inr s' \<Longrightarrow> remove_current_unchecked s = Inr s'"
  by (auto simp: remove_current_def remove_current_unchecked_def split: sum.splits if_splits
      dest: shift_left_refines)

lemma shift_and_store_refines:
  assumes "shift_and_store x s = Inr s'"
  shows "shift_and_store_unchecked x s = s'"
proof -
  from assms obtain d d' where
    sh: "shift_right (current_index s) (used s + 1) (data s) = Inr d" and
    st: "store_cell d (current_index s) x = Inr d'" and
    s': "s' = s\<lparr>data := d', used := used s + 1\<rparr>"
    unfolding shift_and_store_def by (auto split: sum.splits)
  from st have "write_unchecked d (current_index s) (Some x) = d'"
    by (auto simp: store_cell_def write_unchecked_def split: if_splits)
  with shift_right_refines [OF sh] s' show ?thesis
    by (simp only: shift_and_store_unchecked_def)
qed

lemma insert_seq_refines:
  "insert_seq x s = Inr s' \<Longrightarrow> insert_unchecked x s = s'"
  by (auto simp: insert_seq_def insert_unchecked_def Let_def split: sum.splits if_splits
      dest: grow_if_full_refines shift_and_store_refines)

lemma attach_refines:
  "attach x s = Inr s' \<Longrightarrow> attach_unchecked x s = s'"
  by (auto simp: attach_def attach_unchecked_def Let_def store_cell_def write_unchecked_def
      split: sum.splits if_splits dest: grow_if_full_refines shift_and_store_refines)

lemma seq_inv_resize_unchecked: "seq_inv s \<Longrightarrow> seq_inv (resize_unchecked n s)"
  using resize_ok [of s n] seq_inv_resize [of s n] resize_refines [of n s] by simp

lemma seq_inv_sequence_copy_unchecked:
  assumes "seq_inv source"
  shows "seq_inv (sequence_copy_unchecked source)"
proof -
  obtain s where c: "sequence_copy source = Inr s"
    unfolding sequence_copy_def seq_inv_copy_items [OF assms] by simp
  from seq_inv_sequence_copy [OF assms c] sequence_copy_refines [OF c] show ?thesis by simp
qed

lemma seq_inv_operator_assign_unchecked:
  assumes "seq_inv s" "seq_inv source"
  shows "seq_inv (operator_assign_unchecked same_object source s)"
proof -
  have "\<exists>s'. operator_assign same_object source s = Inr s'"
    unfolding operator_assign_def seq_inv_copy_items [OF assms(2)] by simp
  then obtain s' where c: "operator_assign same_object source s = Inr s'" ..
  from seq_inv_operator_assign [OF assms c] operator_assign_refines [OF c] show ?thesis by simp
qed

lemma seq_inv_remove_current_unchecked:
  assumes inv: "seq_inv s" and r: "remove_current_unchecked s = Inr s'"
  shows "seq_inv s'"
proof -
  have it: "is_item s" using r by (auto simp: remove_current_unchecked_def split: if_splits)
  from remove_current_ok [OF inv it] obtain t where
    t: "remove_current s = Inr t" "seq_inv t" by blast
  from remove_current_refines [OF t(1)] r t(2) show ?thesis by simp
qed

lemma shift_and_store_unchecked_ok:
  assumes room: "used s < length (data s)" and cur: "current_index s \<le> used s"
  shows "length (data (shift_and_store_unchecked x s)) = length (data s)"
    and "used (shift_and_store_unchecked x s) = used s + 1"
    and "current_index (shift_and_store_unchecked x s) = current_index s"
    and "capacity (shift_and_store_unchecked x s) = capacity s"
    and "items (shift_and_store_unchecked x s) =
           take (current_index s) (items s) @ Some x # drop (current_index s) (items s)"
    and "data (shift_and_store_unchecked x s) ! current_index s = Some x"
proof -
  let ?c = "current_index s" and ?u = "used s" and ?d = "data s"
  let ?sh = "map (\<lambda>j. if ?c < j \<and> j \<le> ?u + 1 then ?d ! (j - 1) else ?d ! j) [0..<length ?d]"
  have sh: "shift_right_unchecked ?c (?u + 1) ?d = ?sh"
    using room by (intro shift_right_unchecked_ok) simp
  have st: "write_unchecked ?sh ?c (Some x) = ?sh[?c := Some x]"
    using room cur by (simp add: write_unchecked_def)
  have res: "shift_and_store_unchecked x s = s\<lparr>data := ?sh[?c := Some x], used := ?u + 1\<rparr>"
    by (simp only: shift_and_store_unchecked_def sh st)
  have tk: "take (?u + 1) (?sh[?c := Some x]) = take ?c (take ?u ?d) @ Some x # drop ?c (take ?u ?d)"
    using room cur
    by (intro nth_equalityI)
      (auto simp: nth_append nth_list_update nth_Cons' intro!: arg_cong [where f = "nth (data s)"])
  have nx: "(?sh[?c := Some x]) ! ?c = Some x"
    using room cur by simp
  show "length (data (shift_and_store_unchecked x s)) = length (data s)"
    and "used (shift_and_store_unchecked x s) = used s + 1"
    and "current_index (shift_and_store_unchecked x s) = current_index s"
    and "capacity (shift_and_store_unchecked x s) = capacity s"
    unfolding res by simp_all
  show "items (shift_and_store_unchecked x s) =
      take (current_index s) (items s) @ Some x # drop (current_index s) (items s)"
    unfolding res using tk by (simp add: items_def)
  show "data (shift_and_store_unchecked x s) ! current_index s = Some x"
    unfolding res using nx by simp
qed

lemma insert_unchecked_ok:
  assumes inv: "seq_inv s"
  shows "seq_inv (insert_unchecked x s)"
    and "used (insert_unchecked x s) = used s + 1"
    and "current_index (insert_unchecked x s) = (if is_item s then current_index s else 0)"
    and "capacity (insert_unchecked x s) =
           (if used s = capacity s then 5 * capacity s div 4 + 1 else capacity s)"
    and "items (insert_unchecked x s) =
           take (if is_item s then current_index s else 0) (items s) @ Some x #
           drop (if is_item s then current_index s else 0) (items s)"
    and "current (insert_unchecked x s) = Inr (Some x)"
proof -
  obtain s1 where g: "grow_if_full s = Inr s1"
    using grow_if_full_ok [OF inv] by simp
  note p = grow_if_full_props [OF inv g]
  define s2 where "s2 = (if is_item s1 then s1 else s1\<lparr>current_index := 0\<rparr>)"
  have it: "is_item s1 = is_item s" by (rule is_item_grow [OF inv g])
  have c2: "current_index s2 = (if is_item s then current_index s else 0)"
    using p(4) it by (simp add: s2_def)
  have u2: "used s2 = used s" and i2: "items s2 = items s" and cap2: "capacity s2 = capacity s1"
    and d2: "length (data s2) = capacity s1"
    using p(1,3,5) by (simp_all add: s2_def items_def seq_inv_def)
  have cur2: "current_index s2 \<le> used s2"
    using inv c2 u2 by (simp add: seq_inv_def)
  have room2: "used s2 < length (data s2)"
    using p(2,3) u2 d2 by simp
  note q = shift_and_store_unchecked_ok [OF room2 cur2, of x]
  have r: "insert_unchecked x s = shift_and_store_unchecked x s2"
    by (simp add: insert_unchecked_def grow_if_full_refines [OF g] s2_def)
  show "seq_inv (insert_unchecked x s)"
    unfolding r using q(1-4) cur2 room2 d2 cap2 by (simp add: seq_inv_def)
  show "current (insert_unchecked x s) = Inr (Some x)"
    unfolding r using q(1-3,6) cur2 room2 by (simp add: current_def is_item_def)
  show "used (insert_unchecked x s) = used s + 1"
    unfolding r using q(2) u2 by simp
  show "current_index (insert_unchecked x s) = (if is_item s then current_index s else 0)"
    unfolding r using q(3) c2 by simp
  show "capacity (insert_unchecked x s) =
      (if used s = capacity s then 5 * capacity s div 4 + 1 else capacity s)"
    unfolding r using q(4) cap2 p(6) by simp
  show "items (insert_unchecked x s) =
      take (if is_item s then current_index s else 0) (items s) @ Some x #
      drop (if is_item s then current_index s else 0) (items s)"
    unfolding r using q(5) c2 i2 by simp
qed

lemma attach_unchecked_ok:
  assumes inv: "seq_inv s"
  shows "seq_inv (attach_unchecked x s)"
    and "used (attach_unchecked x s) = used s + 1"
    and "current_index (attach_unchecked x s) = (if is_item s then current_index s + 1 else used s)"
    and "capacity (attach_unchecked x s) =
           (if used s = capacity s then 5 * capacity s div 4 + 1 else capacity s)"
    and "items (attach_unchecked x s) =
           take (if is_item s then current_index s + 1 else used s) (items s) @ Some x #
           drop (if is_item s then current_index s + 1 else used s) (items s)"
    and "current (attach_unchecked x s) = Inr (Some x)"
proof -
  obtain s1 where g: "grow_if_full s = Inr s1"
    using grow_if_full_ok [OF inv] by simp
  note p = grow_if_full_props [OF inv g]
  have it: "is_item s1 = is_item s" by (rule is_item_grow [OF inv g])
  have len: "length (data s1) = capacity s1" using p(1) by (simp add: seq_inv_def)
  let ?c = "if is_item s then current_index s + 1 else used s"
  have "seq_inv (attach_unchecked x s) \<and> used (attach_unchecked x s) = used s + 1 \<and>
      current_index (attach_unchecked x s) = ?c \<and>
      capacity (attach_unchecked x s) =
        (if used s = capacity s then 5 * capacity s div 4 + 1 else capacity s) \<and>
      items (attach_unchecked x s) = take ?c (items s) @ Some x # drop ?c (items s) \<and>
      current (attach_unchecked x s) = Inr (Some x)"
  proof (cases "is_item s")
    case False
    have c1: "current_index s1 = used s" using False p(4) by (simp add: is_item_def)
    have st: "write_unchecked (data s1) (current_index s1) (Some x) = (data s1)[used s := Some x]"
      using c1 p(2,3) len by (simp add: write_unchecked_def)
    define s' where "s' = s1\<lparr>data := (data s1)[used s := Some x], used := used s1 + 1\<rparr>"
    have r: "attach_unchecked x s = s'"
      using it False st by (simp add: attach_unchecked_def grow_if_full_refines [OF g] s'_def)
    have "take (used s + 1) ((data s1)[used s := Some x]) = take (used s) (data s1) @ [Some x]"
      using p(2,3) len by (simp add: take_Suc_conv_app_nth)
    then have "items s' = items s @ [Some x]"
      using p(3,5) by (simp add: items_def s'_def)
    then have "items s' = take (used s) (items s) @ Some x # drop (used s) (items s)"
      by (simp add: items_def)
    moreover have "seq_inv s'"
      using p(1,2,3) c1 by (simp add: seq_inv_def s'_def)
    moreover have "current s' = Inr (Some x)"
      using p(2,3) c1 len by (simp add: current_def is_item_def s'_def)
    ultimately show ?thesis
      unfolding r using p(3,6) c1 False by (simp add: s'_def)
  next
    case True
    define s2 where "s2 = s1\<lparr>current_index := current_index s1 + 1\<rparr>"
    have c2: "current_index s2 = current_index s + 1"
      using p(4) by (simp add: s2_def)
    have u2: "used s2 = used s" and i2: "items s2 = items s" and cap2: "capacity s2 = capacity s1"
      and d2: "length (data s2) = capacity s1"
      using p(1,3,5) by (simp_all add: s2_def items_def seq_inv_def)
    have cur2: "current_index s2 \<le> used s2"
      using inv True c2 u2 by (simp add: seq_inv_def is_item_def)
    have room2: "used s2 < length (data s2)"
      using p(2,3) u2 d2 by simp
    note q = shift_and_store_unchecked_ok [OF room2 cur2, of x]
    have r: "attach_unchecked x s = shift_and_store_unchecked x s2"
      using it True by (simp add: attach_unchecked_def grow_if_full_refines [OF g] s2_def)
    have "seq_inv (shift_and_store_unchecked x s2)"
      using q(1-4) cur2 room2 d2 cap2 by (simp add: seq_inv_def)
    moreover have "current (shift_and_store_unchecked x s2) = Inr (Some x)"
      using q(1-3,6) cur2 room2 by (simp add: current_def is_item_def)
    ultimately show ?thesis
      unfolding r using q(2-5) c2 u2 i2 cap2 p(6) True by simp
  qed
  then show "seq_inv (attach_unchecked x s)"
    and "used (attach_unchecked x s) = used s + 1"
    and "current_index (attach_unchecked x s) = (if is_item s then current_index s + 1 else used s)"
    and "capacity (attach_unchecked x s) =
           (if used s = capacity s then 5 * capacity s div 4 + 1 else capacity s)"
    and "items (attach_unchecked x s) =
           take (if is_item s then current_index s + 1 else used s) (items s) @ Some x #
           drop (if is_item s then current_index s + 1 else used s) (items s)"
    and "current (attach_unchecked x s) = Inr (Some x)"
    by simp_all
qed

subsection \<open>Reachable states\<close>

lemma reachable_seq_inv: "reachable s \<Longrightarrow> seq_inv s"
proof (induction rule: reachable.induct)
  case (r_construct initial_capacity)
  show ?case by (rule seq_inv_init)
next
  case (r_copy source)
  then show ?case by (blast intro: seq_inv_sequence_copy_unchecked)
next
  case (r_resize s new_capacity)
  then show ?case by (blast intro: seq_inv_resize_unchecked)
next
  case (r_start s)
  then show ?case by (blast intro: seq_inv_start)
next
  case (r_advance s s')
  then show ?case by (blast intro: seq_inv_advance)
next
  case (r_insert s entry)
  then show ?case by (blast intro: insert_unchecked_ok(1))
next
  case (r_attach s entry)
  then show ?case by (blast intro: attach_unchecked_ok(1))
next
  case (r_remove_current s s')
  then show ?case by (blast intro: seq_inv_remove_current_unchecked)
next
  case (r_assign s source same_object)
  then show ?case by (blast intro: seq_inv_operator_assign_unchecked)
qed

lemma shift_left_no_abort: "shift_left bound index d \<noteq> Inl AssertionFailed"
proof (induction bound index d rule: shift_left.induct)
  case (1 bound index d)
  show ?case
  proof (cases "index < bound")
    case True
    show ?thesis
    proof (cases "copy_cell d (index + 1) d index")
      case (Inl e)
      then have "e \<noteq> AssertionFailed"
        by (auto simp: copy_cell_def split: if_splits)
      with True Inl show ?thesis by (subst shift_left.simps) simp
    next
      case (Inr d')
      with True "1.IH" [OF True Inr] show ?thesis by (subst shift_left.simps) simp
    qed
  next
    case False
    then show ?thesis by (subst shift_left.simps) simp
  qed
qed

lemma traverse_from:
  "seq_inv s \<Longrightarrow> current_index s + k = used s \<Longrightarrow>
   traverse k s = Inr (drop (current_index s) (items s), s\<lparr>current_index := used s\<rparr>)"
proof (induction k arbitrary: s)
  case 0
  then show ?case by (simp add: items_def)
next
  case (Suc k)
  let ?s1 = "s\<lparr>current_index := Suc (current_index s)\<rparr>"
  have lt: "current_index s < used s" and len: "used s \<le> length (data s)"
    using Suc.prems by (simp_all add: seq_inv_def)
  have cur: "current s = Inr (data s ! current_index s)"
    using lt len by (simp add: current_def is_item_def)
  have adv: "advance s = Inr ?s1"
    using lt by (simp add: advance_def is_item_def)
  have "seq_inv ?s1" and "current_index ?s1 + k = used ?s1"
    using Suc.prems lt by (simp_all add: seq_inv_def)
  from Suc.IH [OF this]
  have rec: "traverse k ?s1 = Inr (drop (Suc (current_index s)) (items s), s\<lparr>current_index := used s\<rparr>)"
    by (simp add: items_def)
  have "drop (current_index s) (items s) = data s ! current_index s # drop (Suc (current_index s)) (items s)"
    using Cons_nth_drop_Suc [of "current_index s" "take (used s) (data s)"] lt len
    by (simp add: items_def)
  then show ?case
    by (simp add: cur adv rec)
qed

section \<open>The claims\<close>

text \<open>
  Claim C1: during \<open>insert(value)\<close> and \<open>attach(value)\<close>, after the capacity check and
  the growth, every write to the array lands at an index in \<open>[0, used]\<close>, and no write
  is outside the allocated capacity.

  The code does not meet this. The shifting loop starts at \<open>index = used + 1\<close> and its
  first assignment is \<open>data[used + 1] = data[used]\<close>; when the capacity is \<open>used + 1\<close>
  that cell is outside the array. On a sequence constructed with capacity 1,
  \<open>insert(5)\<close> writes \<open>data[1]\<close>; after \<open>attach(5)\<close> on the same sequence, \<open>attach(7)\<close>
  grows the array to 2 cells and writes \<open>data[2]\<close>.
\<close>

theorem insert_attach_write_outside_capacity:
  "seq_inv (sequence_init 1 :: int sequence) \<and>
   insert_seq (5::int) (sequence_init 1) = Inl (OutOfBounds 1 1) \<and>
   attach (5::int) (sequence_init 1) =
     Inr \<lparr>data = [Some 5], used = 1, current_index = 0, capacity = 1\<rparr> \<and>
   attach (7::int) \<lparr>data = [Some 5], used = 1, current_index = 0, capacity = 1\<rparr> =
     Inl (OutOfBounds 2 2)"
  by (simp add: seq_inv_def insert_seq_def attach_def sequence_init_def grow_if_full_def
      resize_def is_item_def shift_and_store_def shift_right.simps copy_items.simps
      copy_cell_def store_cell_def)

text \<open>
  Claim C2: every state reachable from construction by the public operations satisfies
  \<open>0 \<le> used \<le> cap\<close>, \<open>cap \<ge> 1\<close> and \<open>0 \<le> cursor \<le> used\<close>. The reachable states
  include those that \<open>insert\<close> and \<open>attach\<close> return after the write of claim C1.
\<close>

theorem reachable_invariant:
  "reachable s \<Longrightarrow> used s \<le> capacity s \<and> 1 \<le> capacity s \<and> current_index s \<le> used s"
  by (drule reachable_seq_inv) (simp add: seq_inv_def)

theorem reachable_invariant_witness:
  "reachable \<lparr>data = [Some (5::int), Some 7], used = 2, current_index = 1, capacity = 2\<rparr> \<and>
   used \<lparr>data = [Some (5::int), Some 7], used = 2, current_index = 1, capacity = 2\<rparr>
     \<le> capacity \<lparr>data = [Some (5::int), Some 7], used = 2, current_index = 1, capacity = 2\<rparr> \<and>
   1 \<le> capacity \<lparr>data = [Some (5::int), Some 7], used = 2, current_index = 1, capacity = 2\<rparr> \<and>
   current_index \<lparr>data = [Some (5::int), Some 7], used = 2, current_index = 1, capacity = 2\<rparr>
     \<le> used \<lparr>data = [Some (5::int), Some 7], used = 2, current_index = 1, capacity = 2\<rparr>"
proof -
  have e: "attach_unchecked (7::int) (insert_unchecked 5 (sequence_init 2)) =
      \<lparr>data = [Some 5, Some 7], used = 2, current_index = 1, capacity = 2\<rparr>"
    by code_simp
  have "reachable (attach_unchecked (7::int) (insert_unchecked 5 (sequence_init 2)))"
    by (rule r_attach [OF r_insert [OF r_construct]])
  then have r: "reachable \<lparr>data = [Some (5::int), Some 7], used = 2, current_index = 1, capacity = 2\<rparr>"
    by (simp only: e)
  from reachable_invariant [OF r] r show ?thesis by blast
qed





text \<open>
  Claim C5: on a state with a current item, \<open>remove_current()\<close> makes the size one less,
  moves every item after the cursor one cell to the left, leaves the cursor as it is (so
  the item that followed the removed one becomes current), and leaves no current item
  when the removed item was the last.
\<close>

theorem remove_current_spec:
  assumes inv: "seq_inv s" and item: "current_index s < used s"
  shows "\<exists>s'. remove_current s = Inr s' \<and>
           size_seq s' + 1 = size_seq s \<and>
           current_index s' = current_index s \<and>
           capacity s' = capacity s \<and>
           items s' = take (current_index s) (items s) @ drop (current_index s + 1) (items s) \<and>
           (\<forall>j. current_index s \<le> j \<and> j < used s' \<longrightarrow> data s' ! j = data s ! (j + 1)) \<and>
           (current_index s + 1 < used s \<longrightarrow> current s' = Inr (data s ! (current_index s + 1))) \<and>
           (current_index s + 1 = used s \<longrightarrow> \<not> is_item s')"
proof -
  have it: "is_item s" using item by (simp add: is_item_def)
  from remove_current_ok [OF inv it] obtain s' where
    r: "remove_current s = Inr s'" and inv': "seq_inv s'" and u: "used s' = used s - 1" and
    c: "current_index s' = current_index s" and cap: "capacity s' = capacity s" and
    i: "items s' = take (current_index s) (items s) @ drop (current_index s + 1) (items s)"
    by blast
  have len: "used s \<le> length (data s)" and len': "used s' \<le> length (data s')"
    using inv inv' by (simp_all add: seq_inv_def)
  have nth: "data s' ! j = data s ! (j + 1)" if "current_index s \<le> j" "j < used s'" for j
  proof -
    have "data s' ! j = items s' ! j"
      using that by (simp add: items_def)
    also have "\<dots> = items s ! (j + 1)"
      using that u item len unfolding i by (simp add: nth_append items_def)
    also have "\<dots> = data s ! (j + 1)"
      using that u by (simp add: items_def)
    finally show ?thesis .
  qed
  have cur: "current s' = Inr (data s ! (current_index s + 1))" if "current_index s + 1 < used s"
  proof -
    have lt: "current_index s' < used s'" using that u c by simp
    then have "current s' = Inr (data s' ! current_index s')"
      using len' by (simp add: current_def is_item_def)
    with nth [of "current_index s"] lt c show ?thesis by simp
  qed
  have "\<not> is_item s'" if "current_index s + 1 = used s"
    using that u c by (simp add: is_item_def)
  with r u c cap i nth cur item show ?thesis
    by (auto simp: size_seq_def)
qed

theorem remove_current_spec_witness:
  "seq_inv \<lparr>data = [Some (1::int), Some 2, Some 3, None], used = 3, current_index = 1, capacity = 4\<rparr> \<and>
   (\<exists>s'. remove_current \<lparr>data = [Some (1::int), Some 2, Some 3, None], used = 3, current_index = 1, capacity = 4\<rparr>
            = Inr s' \<and> size_seq s' = 2 \<and> items s' = [Some 1, Some 3] \<and> current s' = Inr (Some 3))"
proof -
  let ?s = "\<lparr>data = [Some (1::int), Some 2, Some 3, None], used = 3, current_index = 1, capacity = 4\<rparr>"
  have h1: "seq_inv ?s" by (simp add: seq_inv_def)
  have h2: "current_index ?s < used ?s" by simp
  from remove_current_spec [OF h1 h2] h1 show ?thesis
    by (auto simp: size_seq_def items_def)
qed

text \<open>
  Claim C6: \<open>advance()\<close>, \<open>current()\<close> and \<open>remove_current()\<close> abort exactly when
  \<open>is_item()\<close> is false at the call; when it is true, on a state satisfying the
  invariant, each of them returns normally.
\<close>

theorem contract_violation_aborts:
  "(advance s = Inl AssertionFailed \<longleftrightarrow> \<not> is_item s) \<and>
   (current s = Inl AssertionFailed \<longleftrightarrow> \<not> is_item s) \<and>
   (remove_current s = Inl AssertionFailed \<longleftrightarrow> \<not> is_item s) \<and>
   (seq_inv s \<and> is_item s \<longrightarrow>
      (\<exists>s'. advance s = Inr s') \<and> (\<exists>v. current s = Inr v) \<and> (\<exists>s'. remove_current s = Inr s'))"
proof -
  have a: "advance s = Inl AssertionFailed \<longleftrightarrow> \<not> is_item s"
    by (simp add: advance_def)
  have c: "current s = Inl AssertionFailed \<longleftrightarrow> \<not> is_item s"
    by (simp add: current_def)
  have r: "remove_current s = Inl AssertionFailed \<longleftrightarrow> \<not> is_item s"
    using shift_left_no_abort [of "used s - 1" "current_index s" "data s"]
    by (auto simp: remove_current_def split: sum.splits)
  have n: "(\<exists>s'. advance s = Inr s') \<and> (\<exists>v. current s = Inr v) \<and> (\<exists>s'. remove_current s = Inr s')"
    if "seq_inv s" "is_item s"
  proof -
    have "current_index s < length (data s)"
      using that by (simp add: seq_inv_def is_item_def)
    then have "\<exists>v. current s = Inr v"
      using that by (simp add: current_def)
    moreover have "\<exists>s'. advance s = Inr s'"
      using that by (simp add: advance_def)
    moreover have "\<exists>s'. remove_current s = Inr s'"
      using remove_current_ok [OF that] by blast
    ultimately show ?thesis by blast
  qed
  from a c r n show ?thesis by blast
qed

theorem contract_violation_aborts_witness:
  "seq_inv \<lparr>data = [Some (1::int), Some 2, None], used = 2, current_index = 1, capacity = 3\<rparr> \<and>
   is_item \<lparr>data = [Some (1::int), Some 2, None], used = 2, current_index = 1, capacity = 3\<rparr> \<and>
   (\<exists>s'. advance \<lparr>data = [Some (1::int), Some 2, None], used = 2, current_index = 1, capacity = 3\<rparr> = Inr s') \<and>
   (\<exists>v. current \<lparr>data = [Some (1::int), Some 2, None], used = 2, current_index = 1, capacity = 3\<rparr> = Inr v) \<and>
   (\<exists>s'. remove_current \<lparr>data = [Some (1::int), Some 2, None], used = 2, current_index = 1, capacity = 3\<rparr> = Inr s') \<and>
   \<not> is_item \<lparr>data = [Some (1::int), Some 2, None], used = 2, current_index = 2, capacity = 3\<rparr> \<and>
   advance \<lparr>data = [Some (1::int), Some 2, None], used = 2, current_index = 2, capacity = 3\<rparr> = Inl AssertionFailed \<and>
   current \<lparr>data = [Some (1::int), Some 2, None], used = 2, current_index = 2, capacity = 3\<rparr> = Inl AssertionFailed \<and>
   remove_current \<lparr>data = [Some (1::int), Some 2, None], used = 2, current_index = 2, capacity = 3\<rparr> = Inl AssertionFailed"
proof -
  let ?s = "\<lparr>data = [Some (1::int), Some 2, None], used = 2, current_index = 1, capacity = 3\<rparr>"
  let ?t = "\<lparr>data = [Some (1::int), Some 2, None], used = 2, current_index = 2, capacity = 3\<rparr>"
  have h1: "seq_inv ?s" by (simp add: seq_inv_def)
  have h2: "is_item ?s" by (simp add: is_item_def)
  have h3: "\<not> is_item ?t" by (simp add: is_item_def)
  from contract_violation_aborts [of ?s] contract_violation_aborts [of ?t] h1 h2 h3
  show ?thesis by blast
qed

text \<open>
  Claim C7: after \<open>start()\<close>, reading \<open>current()\<close> and calling \<open>advance()\<close> \<open>used\<close> times
  reads the items at positions \<open>0\<close> to \<open>used - 1\<close> in order, and leaves \<open>is_item()\<close>
  false.
\<close>

theorem traverse_visits_all:
  assumes "seq_inv s"
  shows "traverse (used s) (start s) = Inr (items s, s\<lparr>current_index := used s\<rparr>) \<and>
         \<not> is_item (s\<lparr>current_index := used s\<rparr>)"
proof -
  have "seq_inv (start s)" and "current_index (start s) + used s = used (start s)"
    using assms by (simp_all add: seq_inv_def start_def)
  from traverse_from [OF this]
  show ?thesis by (simp add: start_def items_def is_item_def)
qed

theorem traverse_visits_all_witness:
  "seq_inv \<lparr>data = [Some (5::int), Some 7, Some 9, None], used = 3, current_index = 2, capacity = 4\<rparr> \<and>
   traverse 3 (start \<lparr>data = [Some (5::int), Some 7, Some 9, None], used = 3, current_index = 2, capacity = 4\<rparr>)
     = Inr ([Some 5, Some 7, Some 9],
            \<lparr>data = [Some 5, Some 7, Some 9, None], used = 3, current_index = 3, capacity = 4\<rparr>)"
proof -
  let ?s = "\<lparr>data = [Some (5::int), Some 7, Some 9, None], used = 3, current_index = 2, capacity = 4\<rparr>"
  have h: "seq_inv ?s" by (simp add: seq_inv_def)
  from traverse_visits_all [OF h] h show ?thesis by (simp add: items_def)
qed

text \<open>
  Claim C8: when \<open>used = cap\<close>, \<open>insert\<close> and \<open>attach\<close> first grow the capacity to exactly
  \<open>floor(1.25 * cap) + 1\<close>; when \<open>used < cap\<close> the capacity does not change. The theorem
  reads the capacity off the state returned, or, when the call writes outside the
  array, off the size of the array at that write.
\<close>

theorem growth_policy:
  assumes inv: "seq_inv s"
  shows "(\<exists>s1. grow_if_full s = Inr s1 \<and>
            capacity s1 = (if used s = capacity s then nat \<lfloor>1.25 * real (capacity s)\<rfloor> + 1 else capacity s) \<and>
            length (data s1) = capacity s1 \<and> items s1 = items s) \<and>
         (case insert_seq x s of
            Inr s' \<Rightarrow> capacity s' = (if used s = capacity s then nat \<lfloor>1.25 * real (capacity s)\<rfloor> + 1 else capacity s)
          | Inl (OutOfBounds i n) \<Rightarrow> n = (if used s = capacity s then nat \<lfloor>1.25 * real (capacity s)\<rfloor> + 1 else capacity s)
          | Inl AssertionFailed \<Rightarrow> False) \<and>
         (case attach x s of
            Inr s' \<Rightarrow> capacity s' = (if used s = capacity s then nat \<lfloor>1.25 * real (capacity s)\<rfloor> + 1 else capacity s)
          | Inl (OutOfBounds i n) \<Rightarrow> n = (if used s = capacity s then nat \<lfloor>1.25 * real (capacity s)\<rfloor> + 1 else capacity s)
          | Inl AssertionFailed \<Rightarrow> False)"
proof -
  let ?G = "if used s = capacity s then 5 * capacity s div 4 + 1 else capacity s"
  obtain s1 where g: "grow_if_full s = Inr s1"
    using grow_if_full_ok [OF inv] by simp
  note p = grow_if_full_props [OF inv g]
  have G: "used s + 1 \<le> ?G" using p(2,3,6) by simp
  have first: "\<exists>s1. grow_if_full s = Inr s1 \<and> capacity s1 = ?G \<and>
      length (data s1) = capacity s1 \<and> items s1 = items s"
    using g p(1,5,6) by (simp add: seq_inv_def)
  have ins: "case insert_seq x s of Inr s' \<Rightarrow> capacity s' = ?G
      | Inl (OutOfBounds i n) \<Rightarrow> n = ?G | Inl AssertionFailed \<Rightarrow> False"
  proof (cases "used s + 2 \<le> ?G")
    case True
    from insert_seq_ok [OF inv True, of x] show ?thesis by auto
  next
    case False
    with G have t: "used s + 1 = ?G" by simp
    from insert_seq_overflow [OF inv t, of x] t show ?thesis by simp
  qed
  have att: "case attach x s of Inr s' \<Rightarrow> capacity s' = ?G
      | Inl (OutOfBounds i n) \<Rightarrow> n = ?G | Inl AssertionFailed \<Rightarrow> False"
  proof (cases "is_item s")
    case False
    from attach_end_ok [OF inv False, of x] show ?thesis by auto
  next
    case item: True
    show ?thesis
    proof (cases "used s + 2 \<le> ?G")
      case True
      from attach_after_ok [OF inv item True, of x] show ?thesis by auto
    next
      case False
      with G have t: "used s + 1 = ?G" by simp
      from attach_overflow [OF inv item t, of x] t show ?thesis by simp
    qed
  qed
  from first ins att show ?thesis
    unfolding floor_growth by blast
qed

theorem growth_policy_witness:
  "seq_inv \<lparr>data = [Some (1::int), Some 2, Some 3, Some 4], used = 4, current_index = 2, capacity = 4\<rparr> \<and>
   (\<exists>s'. insert_seq 9 \<lparr>data = [Some (1::int), Some 2, Some 3, Some 4], used = 4, current_index = 2, capacity = 4\<rparr>
            = Inr s' \<and> capacity s' = 6) \<and>
   (\<exists>s'. attach 9 \<lparr>data = [Some (1::int), Some 2, Some 3, Some 4], used = 4, current_index = 2, capacity = 4\<rparr>
            = Inr s' \<and> capacity s' = 6)"
proof -
  let ?s = "\<lparr>data = [Some (1::int), Some 2, Some 3, Some 4], used = 4, current_index = 2, capacity = 4\<rparr>"
  have h: "seq_inv ?s" by (simp add: seq_inv_def)
  have i: "insert_seq 9 ?s =
      Inr \<lparr>data = [Some 1, Some 2, Some 9, Some 3, Some 4, None], used = 5, current_index = 2, capacity = 6\<rparr>"
    by code_simp
  have a: "attach 9 ?s =
      Inr \<lparr>data = [Some 1, Some 2, Some 3, Some 9, Some 4, None], used = 5, current_index = 3, capacity = 6\<rparr>"
    by code_simp
  have f: "nat \<lfloor>1.25 * real (4::nat)\<rfloor> + 1 = 6" by (simp add: floor_growth)
  from growth_policy [OF h, of 9] h show ?thesis
    unfolding i a by (simp add: f)
qed

text \<open>
  Claim C9: when \<open>cursor \<le> used\<close>, \<open>is_item()\<close> is the truth value of \<open>cursor < used\<close>,
  which is that of \<open>cursor \<noteq> used\<close>. (\<open>is_item\<close> is a function of the state to \<open>bool\<close>:
  it returns no state, so it changes none.)
\<close>

theorem is_item_spec:
  "current_index s \<le> used s \<Longrightarrow>
   is_item s = (current_index s < used s) \<and> is_item s = (current_index s \<noteq> used s)"
  by (auto simp: is_item_def)

theorem is_item_spec_witness:
  "current_index \<lparr>data = [Some (1::int), None], used = 1, current_index = 0, capacity = 2\<rparr>
     \<le> used \<lparr>data = [Some (1::int), None], used = 1, current_index = 0, capacity = 2\<rparr> \<and>
   is_item \<lparr>data = [Some (1::int), None], used = 1, current_index = 0, capacity = 2\<rparr> \<and>
   \<not> is_item \<lparr>data = [Some (1::int), None], used = 1, current_index = 1, capacity = 2\<rparr>"
  using is_item_spec [of "\<lparr>data = [Some (1::int), None], used = 1, current_index = 0, capacity = 2\<rparr>"]
    is_item_spec [of "\<lparr>data = [Some (1::int), None], used = 1, current_index = 1, capacity = 2\<rparr>"]
  by simp

text \<open>
  Claim C10: \<open>start()\<close> and, when \<open>cursor < used\<close>, \<open>advance()\<close> change the cursor only:
  \<open>used\<close>, \<open>capacity\<close> and the array are as before.
\<close>

theorem start_advance_frame:
  "used (start s) = used s \<and> capacity (start s) = capacity s \<and> data (start s) = data s \<and>
   items (start s) = items s \<and> current_index (start s) = 0 \<and>
   (current_index s < used s \<longrightarrow>
      (\<exists>s'. advance s = Inr s' \<and> used s' = used s \<and> capacity s' = capacity s \<and>
            data s' = data s \<and> items s' = items s \<and> current_index s' = current_index s + 1))"
  by (simp add: start_def advance_def is_item_def items_def)

theorem start_advance_frame_witness:
  "current_index \<lparr>data = [Some (1::int), Some 2, None], used = 2, current_index = 1, capacity = 3\<rparr>
     < used \<lparr>data = [Some (1::int), Some 2, None], used = 2, current_index = 1, capacity = 3\<rparr> \<and>
   (\<exists>s'. advance \<lparr>data = [Some (1::int), Some 2, None], used = 2, current_index = 1, capacity = 3\<rparr> = Inr s' \<and>
         used s' = 2 \<and> capacity s' = 3 \<and> data s' = [Some 1, Some 2, None] \<and> current_index s' = 2)"
proof -
  let ?s = "\<lparr>data = [Some (1::int), Some 2, None], used = 2, current_index = 1, capacity = 3\<rparr>"
  have h: "current_index ?s < used ?s" by simp
  from start_advance_frame [of ?s] h obtain s' where
    "advance ?s = Inr s'" "used s' = used ?s" "capacity s' = capacity ?s" "data s' = data ?s"
    "current_index s' = current_index ?s + 1"
    by blast
  with h show ?thesis by simp
qed

end
